theory Spec2Isabelle
  imports Complex_Main "HOL-Library.AList"
begin

section \<open>PageRank: data model\<close>

text \<open>
  The program is \<^verbatim>\<open>src/pagerank/pagerank.py\<close>. Its numbers are modelled in exact
  rational arithmetic (\<^typ>\<open>rat\<close>): the literal \<^verbatim>\<open>0.001\<close> is \<open>1/1000\<close>, and rounding
  of binary floating point is outside the model.

  A Python \<^verbatim>\<open>dict\<close> is an association list in insertion order; a well-formed one has
  distinct keys. A Python \<^verbatim>\<open>set\<close> of pages is a list without repetitions, in whatever
  order the interpreter iterates it: \<^verbatim>\<open>len\<close> is \<^const>\<open>length\<close>, \<^verbatim>\<open>s == set()\<close> is \<open>s = []\<close>
  and \<^verbatim>\<open>x in s\<close> is \<open>x \<in> set s\<close>.
\<close>

datatype error = KeyError | IndexError | ValueError | UnboundLocalError

type_synonym page = string
type_synonym corpus = "(page \<times> page list) list"
type_synonym dist = "(page \<times> rat) list"

text \<open>\<^verbatim>\<open>d[k]\<close> raises KeyError on a missing key.\<close>

definition getitem :: "('k \<times> 'v) list \<Rightarrow> 'k \<Rightarrow> error + 'v" where
  "getitem d k = (case map_of d k of None \<Rightarrow> Inl KeyError | Some v \<Rightarrow> Inr v)"

text \<open>\<^verbatim>\<open>d[k] = v\<close> replaces the value of a present key in place and appends a new key.\<close>

definition setitem :: "('k \<times> 'v) list \<Rightarrow> 'k \<Rightarrow> 'v \<Rightarrow> ('k \<times> 'v) list" where
  "setitem d k v = AList.update k v d"

text \<open>Iterating a dict yields its keys in order.\<close>

definition dict_keys :: "('k \<times> 'v) list \<Rightarrow> 'k list" where
  "dict_keys d = map fst d"

text \<open>The shape of a corpus as Python can build it: distinct keys, and each value a set.\<close>

definition is_corpus :: "corpus \<Rightarrow> bool" where
  "is_corpus corpus \<longleftrightarrow>
     distinct (dict_keys corpus) \<and> list_all (\<lambda>(web_page, links). distinct links) corpus"


text \<open>The sum of a distribution's values.\<close>

definition total :: "dist \<Rightarrow> rat" where
  "total output = sum_list (map snd output)"

section \<open>transition_model (lines 52-83)\<close>

text \<open>
  Lines 74-77: \<^verbatim>\<open>for linked_page in corpus[page]: output[linked_page] = output[linked_page] + inc\<close>.
  Reading \<^verbatim>\<open>output[linked_page]\<close> raises KeyError when the target is no key of the corpus.
\<close>

fun add_links :: "page list \<Rightarrow> rat \<Rightarrow> dist \<Rightarrow> error + dist" where
  "add_links [] inc output = Inr output"
| "add_links (linked_page # rest) inc output =
     (case getitem output linked_page of
        Inl e \<Rightarrow> Inl e
      | Inr v \<Rightarrow> add_links rest inc (setitem output linked_page (v + inc)))"

text \<open>
  The divisor \<^verbatim>\<open>web_pages_count\<close> is only evaluated inside a loop over the corpus, hence
  with at least one page, and \<^verbatim>\<open>linked_pages_count\<close> only for a non-empty set: no division
  by zero can be reached.
\<close>

definition transition_model :: "corpus \<Rightarrow> page \<Rightarrow> rat \<Rightarrow> error + dist" where
  "transition_model corpus page damping_factor =
     (let web_pages_count = length corpus;
          output = fold (\<lambda>web_page output.
                      setitem output web_page ((1 - damping_factor) / of_nat web_pages_count))
                    (dict_keys corpus) []
      in case getitem corpus page of
           Inl e \<Rightarrow> Inl e
         | Inr links \<Rightarrow>
             if links \<noteq> [] then
               (let linked_pages_count = length links
                in add_links links (damping_factor / of_nat linked_pages_count) output)
             else
               Inr (fold (\<lambda>web_page output. setitem output web_page (1 / of_nat web_pages_count))
                      (dict_keys corpus) output))"

section \<open>The random source\<close>


definition choice :: "'a list \<Rightarrow> rat \<Rightarrow> error + 'a" where
  "choice seq r =
     (if seq = [] then Inl IndexError
      else Inr (seq ! nat \<lfloor>r * of_nat (length seq)\<rfloor>))"

fun accumulate :: "rat \<Rightarrow> rat list \<Rightarrow> rat list" where
  "accumulate acc [] = []"
| "accumulate acc (w # ws) = (acc + w) # accumulate (acc + w) ws"




section \<open>sample_pagerank (lines 87-121)\<close>






section \<open>iterate_pagerank (lines 125-175)\<close>

text \<open>
  Lines 147-160: the inner loop over \<^verbatim>\<open>web_page in corpus\<close>, accumulating
  \<^verbatim>\<open>prob_visit_from_other\<close> for one \<^verbatim>\<open>current_page\<close>. All ranks are read from
  \<^verbatim>\<open>output_copy\<close>.
\<close>

fun visit_from_other :: "corpus \<Rightarrow> dist \<Rightarrow> page \<Rightarrow> page list \<Rightarrow> rat \<Rightarrow> error + rat" where
  "visit_from_other corpus output_copy current_page [] prob_visit_from_other =
     Inr prob_visit_from_other"
| "visit_from_other corpus output_copy current_page (web_page # rest) prob_visit_from_other =
     (case getitem corpus web_page of
        Inl e \<Rightarrow> Inl e
      | Inr links \<Rightarrow>
          if links \<noteq> [] then
            (if current_page \<in> set links then
               (case getitem output_copy web_page of
                  Inl e \<Rightarrow> Inl e
                | Inr r \<Rightarrow>
                    visit_from_other corpus output_copy current_page rest
                      (prob_visit_from_other + r / of_nat (length links)))
             else visit_from_other corpus output_copy current_page rest prob_visit_from_other)
          else
            (case getitem output_copy web_page of
               Inl e \<Rightarrow> Inl e
             | Inr r \<Rightarrow>
                 visit_from_other corpus output_copy current_page rest
                   (prob_visit_from_other + r / of_nat (length corpus))))"

text \<open>Lines 145-163: the loop over \<^verbatim>\<open>current_page in output_copy\<close>, writing into \<^verbatim>\<open>output\<close>.\<close>

fun update_ranks :: "corpus \<Rightarrow> rat \<Rightarrow> dist \<Rightarrow> page list \<Rightarrow> dist \<Rightarrow> error + dist" where
  "update_ranks corpus damping_factor output_copy [] output = Inr output"
| "update_ranks corpus damping_factor output_copy (current_page # rest) output =
     (case visit_from_other corpus output_copy current_page (dict_keys corpus) 0 of
        Inl e \<Rightarrow> Inl e
      | Inr prob_visit_from_other \<Rightarrow>
          update_ranks corpus damping_factor output_copy rest
            (setitem output current_page
               ((1 - damping_factor) / of_nat (length corpus)
                  + damping_factor * prob_visit_from_other)))"

text \<open>One pass of the \<^verbatim>\<open>while\<close> body: \<^verbatim>\<open>output_copy = copy.deepcopy(output)\<close>, then the loop.\<close>

definition one_pass :: "corpus \<Rightarrow> rat \<Rightarrow> dist \<Rightarrow> error + dist" where
  "one_pass corpus damping_factor output =
     (let output_copy = output
      in update_ranks corpus damping_factor output_copy (dict_keys output_copy) output)"

text \<open>Lines 168-169: the differences larger than 0.001 in absolute value.\<close>

fun significant_differences :: "dist \<Rightarrow> dist \<Rightarrow> page list \<Rightarrow> error + rat list" where
  "significant_differences output output_copy [] = Inr []"
| "significant_differences output output_copy (page # rest) =
     (case getitem output page of
        Inl e \<Rightarrow> Inl e
      | Inr new \<Rightarrow>
          (case getitem output_copy page of
             Inl e \<Rightarrow> Inl e
           | Inr old \<Rightarrow>
               (case significant_differences output output_copy rest of
                  Inl e \<Rightarrow> Inl e
                | Inr ds \<Rightarrow> Inr (if \<bar>new - old\<bar> > 1 / 1000 then (new - old) # ds else ds))))"

text \<open>
  The \<^verbatim>\<open>while True\<close> loop has no bound: a run that never breaks has no result, which is
  the value \<open>None\<close>.
\<close>

partial_function (option) iterate_loop :: "corpus \<Rightarrow> rat \<Rightarrow> dist \<Rightarrow> (error + dist) option" where
  "iterate_loop corpus damping_factor output =
     (case one_pass corpus damping_factor output of
        Inl e \<Rightarrow> Some (Inl e)
      | Inr output' \<Rightarrow>
          (case significant_differences output' output (dict_keys output) of
             Inl e \<Rightarrow> Some (Inl e)
           | Inr ds \<Rightarrow>
               if length ds = 0 then Some (Inr output')
               else iterate_loop corpus damping_factor output'))"

definition iterate_pagerank :: "corpus \<Rightarrow> rat \<Rightarrow> (error + dist) option" where
  "iterate_pagerank corpus damping_factor =
     (let web_pages_count = length corpus;
          output = fold (\<lambda>web_page output. setitem output web_page (1 / of_nat web_pages_count))
                     (dict_keys corpus) []
      in iterate_loop corpus damping_factor output)"

text \<open>The rank of a page in a vector (0 for a page the vector does not hold).\<close>

definition rank_of :: "dist \<Rightarrow> page \<Rightarrow> rat" where
  "rank_of v p = (case map_of v p of None \<Rightarrow> 0 | Some r \<Rightarrow> r)"

text \<open>
  The recurrence in the words of the specification: the new rank of \<open>p\<close> is
  \<open>(1 - d) / N\<close> plus \<open>d\<close> times the sum, over all nodes \<open>q\<close>, of \<open>prev_rank q / outdegree q\<close>
  if \<open>q\<close> links to \<open>p\<close>, and of \<open>prev_rank q / N\<close> if \<open>q\<close> is dangling.
\<close>

definition contribution :: "corpus \<Rightarrow> (page \<Rightarrow> rat) \<Rightarrow> page \<Rightarrow> page \<times> page list \<Rightarrow> rat" where
  "contribution corpus prev_rank p = (\<lambda>(q, links).
     if length links = 0 then prev_rank q / of_nat (length corpus)
     else if p \<in> set links then prev_rank q / of_nat (length links)
     else 0)"

definition recurrence :: "corpus \<Rightarrow> rat \<Rightarrow> (page \<Rightarrow> rat) \<Rightarrow> page \<Rightarrow> rat" where
  "recurrence corpus d prev_rank p =
     (1 - d) / of_nat (length corpus) + d * sum_list (map (contribution corpus prev_rank p) corpus)"

text \<open>The vector after \<open>k\<close> passes, starting from the uniform vector of lines 135-139.\<close>

fun after_passes :: "corpus \<Rightarrow> rat \<Rightarrow> nat \<Rightarrow> error + dist" where
  "after_passes corpus damping_factor 0 =
     Inr (fold (\<lambda>web_page output. setitem output web_page (1 / of_nat (length corpus)))
            (dict_keys corpus) [])"
| "after_passes corpus damping_factor (Suc k) =
     (case after_passes corpus damping_factor k of
        Inl e \<Rightarrow> Inl e
      | Inr output \<Rightarrow> one_pass corpus damping_factor output)"

text \<open>The convergence test between a new vector and the one before it.\<close>

definition converged :: "dist \<Rightarrow> dist \<Rightarrow> bool" where
  "converged new old \<longleftrightarrow> list_all (\<lambda>p. \<bar>rank_of new p - rank_of old p\<bar> \<le> 1 / 1000) (dict_keys old)"


section \<open>Dictionaries: lookup and update\<close>

lemma getitem_Inr_iff: "getitem d k = Inr v \<longleftrightarrow> map_of d k = Some v"
  by (simp add: getitem_def split: option.splits)

lemma getitem_Inl_iff: "getitem d k = Inl e \<longleftrightarrow> e = KeyError \<and> k \<notin> set (dict_keys d)"
proof (cases "map_of d k")
  case None
  then have "k \<notin> fst ` set d" by (simp add: map_of_eq_None_iff)
  with None show ?thesis
    by (auto simp: getitem_def dict_keys_def)
next
  case (Some v)
  then have "(k, v) \<in> set d" by (rule map_of_SomeD)
  then have "k \<in> fst ` set d" by force
  with Some show ?thesis
    by (simp add: getitem_def dict_keys_def)
qed

lemma getitem_present:
  "distinct (dict_keys d) \<Longrightarrow> (k, v) \<in> set d \<Longrightarrow> getitem d k = Inr v"
  by (simp add: getitem_Inr_iff dict_keys_def)

lemma keys_setitem_present:
  "k \<in> set (dict_keys d) \<Longrightarrow> dict_keys (setitem d k v) = dict_keys d"
  by (simp add: dict_keys_def setitem_def update_keys)

lemma keys_setitem_absent:
  "k \<notin> set (dict_keys d) \<Longrightarrow> dict_keys (setitem d k v) = dict_keys d @ [k]"
  by (simp add: dict_keys_def setitem_def update_keys)

lemma map_of_setitem: "map_of (setitem d k v) = (map_of d)(k \<mapsto> v)"
  by (simp add: setitem_def update_conv')

text \<open>An association list with distinct keys is determined by its keys and its lookups.\<close>

lemma dict_eqI:
  "dict_keys xs = dict_keys ys \<Longrightarrow> distinct (dict_keys xs) \<Longrightarrow>
   (\<And>k. k \<in> set (dict_keys xs) \<Longrightarrow> map_of xs k = map_of ys k) \<Longrightarrow> xs = ys"
proof (induction xs arbitrary: ys)
  case Nil
  then show ?case by (simp add: dict_keys_def)
next
  case (Cons x xs)
  obtain k v where x: "x = (k, v)" by (cases x)
  from Cons.prems(1) obtain y ys' where ys: "ys = y # ys'"
    by (cases ys) (auto simp: dict_keys_def)
  obtain k' v' where y: "y = (k', v')" by (cases y)
  from Cons.prems(1) have kk: "k' = k" and keys: "dict_keys xs = dict_keys ys'"
    by (simp_all add: x y ys dict_keys_def)
  from Cons.prems(3)[of k] have vv: "v' = v"
    by (simp add: x y ys kk dict_keys_def)
  from Cons.prems(2) have dist: "distinct (dict_keys xs)" and notin: "k \<notin> set (dict_keys xs)"
    by (simp_all add: x dict_keys_def)
  have "map_of xs j = map_of ys' j" if "j \<in> set (dict_keys xs)" for j
  proof -
    from that notin have "j \<noteq> k" by auto
    with Cons.prems(3)[of j] that show ?thesis
      by (simp add: x y ys kk dict_keys_def)
  qed
  with Cons.IH[OF keys dist] have "xs = ys'" by blast
  then show ?case by (simp add: x y ys kk vv)
qed

lemma setitem_absent:
  "k \<notin> set (dict_keys d) \<Longrightarrow> setitem d k v = d @ [(k, v)]"
  by (induction d) (auto simp: setitem_def dict_keys_def)

lemma fold_setitem_fresh:
  "distinct ks \<Longrightarrow> set ks \<inter> set (dict_keys out) = {} \<Longrightarrow>
   fold (\<lambda>k out. setitem out k v) ks out = out @ map (\<lambda>k. (k, v)) ks"
proof (induction ks arbitrary: out)
  case Nil
  then show ?case by simp
next
  case (Cons k ks)
  from Cons.prems have k: "k \<notin> set (dict_keys out)" by auto
  from Cons.prems have "set ks \<inter> set (dict_keys (out @ [(k, v)])) = {}"
    by (auto simp: dict_keys_def)
  with Cons.IH[of "out @ [(k, v)]"] Cons.prems(1) k show ?case
    by (simp add: setitem_absent)
qed

lemma fold_setitem_keys:
  "set ks \<subseteq> set (dict_keys out) \<Longrightarrow>
   dict_keys (fold (\<lambda>k out. setitem out k v) ks out) = dict_keys out"
  by (induction ks arbitrary: out) (simp_all add: keys_setitem_present)

lemma fold_setitem_lookup:
  "map_of (fold (\<lambda>k out. setitem out k v) ks out) j =
     (if j \<in> set ks then Some v else map_of out j)"
  by (induction ks arbitrary: out) (auto simp: map_of_setitem)

lemma total_setitem:
  "distinct (dict_keys out) \<Longrightarrow> map_of out k = Some v \<Longrightarrow>
   total (setitem out k w) = total out - v + w"
proof (induction out)
  case Nil
  then show ?case by simp
next
  case (Cons x out)
  obtain k' v' where x: "x = (k', v')" by (cases x)
  show ?case
  proof (cases "k' = k")
    case True
    with Cons.prems x show ?thesis by (simp add: setitem_def total_def)
  next
    case False
    with Cons.prems x have "total (setitem out k w) = total out - v + w"
      by (intro Cons.IH) (simp_all add: dict_keys_def)
    with False x show ?thesis by (simp add: setitem_def total_def)
  qed
qed

lemma total_const: "total (map (\<lambda>k. (k, v)) ks) = of_nat (length ks) * v"
  by (induction ks) (simp_all add: total_def algebra_simps)

lemma add_links_ok:
  "set links \<subseteq> set (dict_keys out) \<Longrightarrow> distinct (dict_keys out) \<Longrightarrow>
   \<exists>out'. add_links links inc out = Inr out' \<and> dict_keys out' = dict_keys out \<and>
     total out' = total out + of_nat (length links) * inc"
proof (induction links arbitrary: out)
  case Nil
  then show ?case by simp
next
  case (Cons l links)
  from Cons.prems obtain v where v: "map_of out l = Some v"
    by (auto simp: dict_keys_def map_of_eq_None_iff[symmetric] simp del: map_of_eq_None_iff)
  let ?out = "setitem out l (v + inc)"
  from Cons.prems have keys: "dict_keys ?out = dict_keys out"
    by (simp add: keys_setitem_present)
  with Cons.prems Cons.IH[of ?out] obtain out' where
    "add_links links inc ?out = Inr out'" "dict_keys out' = dict_keys out"
    "total out' = total ?out + of_nat (length links) * inc"
    by auto
  moreover have "total ?out = total out + inc"
    using total_setitem[OF Cons.prems(2) v, of "v + inc"] by simp
  ultimately show ?case using v
    by (simp add: getitem_def algebra_simps)
qed

lemma add_links_lookup:
  "distinct links \<Longrightarrow> add_links links inc out = Inr out' \<Longrightarrow>
   map_of out' j = (if j \<in> set links then map_option (\<lambda>v. v + inc) (map_of out j) else map_of out j)"
proof (induction links arbitrary: out)
  case Nil
  then show ?case by simp
next
  case (Cons l links)
  from Cons.prems(2) obtain v where v: "map_of out l = Some v"
    and rest: "add_links links inc (setitem out l (v + inc)) = Inr out'"
    by (auto simp: getitem_def split: option.splits)
  from Cons.prems(1) have "distinct links" "l \<notin> set links" by simp_all
  with Cons.IH[OF _ rest] v show ?case
    by (auto simp: map_of_setitem)
qed

lemma add_links_unknown:
  "\<not> set links \<subseteq> set (dict_keys out) \<Longrightarrow> add_links links inc out = Inl KeyError"
proof (induction links arbitrary: out)
  case Nil
  then show ?case by simp
next
  case (Cons l links)
  show ?case
  proof (cases "l \<in> set (dict_keys out)")
    case False
    then show ?thesis by (simp add: getitem_def dict_keys_def map_of_eq_None_iff[THEN iffD2])
  next
    case True
    then obtain v where v: "getitem out l = Inr v"
      by (cases "getitem out l") (auto simp: getitem_Inl_iff)
    from True Cons.prems have "\<not> set links \<subseteq> set (dict_keys (setitem out l (v + inc)))"
      by (simp add: keys_setitem_present)
    with Cons.IH v show ?thesis by simp
  qed
qed

lemma baseline_output:
  "distinct (dict_keys corpus) \<Longrightarrow>
   fold (\<lambda>web_page output. setitem output web_page b) (dict_keys corpus) [] =
     map (\<lambda>k. (k, b)) (dict_keys corpus)"
  using fold_setitem_fresh[of "dict_keys corpus" "[]" b] by (simp add: dict_keys_def)

lemma keys_const [simp]: "dict_keys (map (\<lambda>k. (k, b)) ks) = ks"
  by (simp add: dict_keys_def comp_def)

lemma lookup_const: "map_of (map (\<lambda>k. (k, b)) ks) j = (if j \<in> set ks then Some b else None)"
  by (induction ks) auto

lemma overwrite_output:
  assumes "distinct ks"
  shows "fold (\<lambda>web_page output. setitem output web_page v) ks (map (\<lambda>k. (k, b)) ks) =
     map (\<lambda>k. (k, v)) ks"
proof (rule dict_eqI)
  show "dict_keys (fold (\<lambda>web_page output. setitem output web_page v) ks (map (\<lambda>k. (k, b)) ks)) =
        dict_keys (map (\<lambda>k. (k, v)) ks)"
    by (simp add: fold_setitem_keys)
  then show "distinct (dict_keys (fold (\<lambda>web_page output. setitem output web_page v) ks (map (\<lambda>k. (k, b)) ks)))"
    using assms by simp
  fix k
  show "map_of (fold (\<lambda>web_page output. setitem output web_page v) ks (map (\<lambda>k. (k, b)) ks)) k =
        map_of (map (\<lambda>k. (k, v)) ks) k"
    by (simp add: fold_setitem_lookup lookup_const)
qed

section \<open>transition_model: what it returns\<close>

lemma transition_model_dangling_aux:
  assumes "is_corpus corpus" and "(page, []) \<in> set corpus"
  shows "transition_model corpus page damping_factor =
           Inr (map (\<lambda>web_page. (web_page, 1 / of_nat (length corpus))) (dict_keys corpus))"
proof -
  from assms have d: "distinct (dict_keys corpus)" by (simp add: is_corpus_def)
  from d assms(2) have "getitem corpus page = Inr []" by (rule getitem_present)
  with d show ?thesis
    by (simp add: transition_model_def baseline_output overwrite_output)
qed

lemma transition_model_linked_aux:
  assumes "is_corpus corpus" and "(page, links) \<in> set corpus" and "links \<noteq> []"
    and "set links \<subseteq> set (dict_keys corpus)"
  shows "\<exists>out. transition_model corpus page damping_factor = Inr out \<and>
           dict_keys out = dict_keys corpus \<and> 
           total out = 1 \<and>
           (\<forall>p \<in> set (dict_keys corpus). map_of out p =
              Some ((1 - damping_factor) / of_nat (length corpus) +
                    (if p \<in> set links then damping_factor / of_nat (length links) else 0)))"
proof -
  let ?b = "(1 - damping_factor) / of_nat (length corpus)"
  let ?inc = "damping_factor / of_nat (length links)"
  let ?base = "map (\<lambda>k. (k, ?b)) (dict_keys corpus)"
  from assms(1) have d: "distinct (dict_keys corpus)" by (simp add: is_corpus_def)
  from assms(1,2) have dl: "distinct links" by (auto simp: is_corpus_def list_all_iff)
  from d assms(2) have g: "getitem corpus page = Inr links" by (rule getitem_present)
  from g assms(3) d have tm: "transition_model corpus page damping_factor = add_links links ?inc ?base"
    by (simp add: transition_model_def baseline_output)
  from add_links_ok[of links ?base ?inc] assms(4) d obtain out where
    out: "add_links links ?inc ?base = Inr out" and keys: "dict_keys out = dict_keys corpus"
    and tot: "total out = total ?base + of_nat (length links) * ?inc"
    by auto
  from assms(2) have "corpus \<noteq> []" by auto
  moreover have "total ?base = of_nat (length (dict_keys corpus)) * ?b"
    by (rule total_const)
  ultimately have "total ?base = 1 - damping_factor"
    by (simp add: dict_keys_def)
  with tot assms(3) have "total out = 1" by simp
  moreover have "map_of out p = Some (?b + (if p \<in> set links then ?inc else 0))"
    if "p \<in> set (dict_keys corpus)" for p
    using add_links_lookup[OF dl out, of p] that by (simp add: lookup_const)
  ultimately show ?thesis using tm out keys by auto
qed

lemma transition_model_unknown_target:
  assumes "is_corpus corpus" and "(page, links) \<in> set corpus"
    and "\<not> set links \<subseteq> set (dict_keys corpus)"
  shows "transition_model corpus page damping_factor = Inl KeyError"
proof -
  from assms(1) have d: "distinct (dict_keys corpus)" by (simp add: is_corpus_def)
  from d assms(2) have g: "getitem corpus page = Inr links" by (rule getitem_present)
  from assms(3) have "links \<noteq> []" by auto
  with g d assms(3) show ?thesis
    by (simp add: transition_model_def baseline_output add_links_unknown)
qed

lemma transition_model_unknown_page:
  "page \<notin> set (dict_keys corpus) \<Longrightarrow> transition_model corpus page damping_factor = Inl KeyError"
  using getitem_Inl_iff[of corpus page KeyError]
  by (simp add: transition_model_def Let_def)


section \<open>The random source: draws are members of the population\<close>


lemma choice_empty: "choice [] r = Inl IndexError"
  by (simp add: choice_def)


lemma length_accumulate [simp]: "length (accumulate acc ws) = length ws"
  by (induction ws arbitrary: acc) simp_all



section \<open>sample_pagerank: the loop\<close>















section \<open>Claims about transition_model\<close>

text \<open>
  C3. For a page that is a key of the corpus with an empty set of links, \<^const>\<open>transition_model\<close>
  returns exactly the uniform distribution: one entry per page of the corpus, in the
  corpus's order, each with value \<open>1 / N\<close>, for every damping factor.
\<close>

theorem transition_model_dangling_uniform:
  assumes "is_corpus corpus" and "(page, []) \<in> set corpus"
  shows "transition_model corpus page damping_factor =
           Inr (map (\<lambda>web_page. (web_page, 1 / of_nat (length corpus))) (dict_keys corpus))"
  using assms by (rule transition_model_dangling_aux)

text \<open>C3 at the corpus \<open>{A: {B}, B: {}}\<close>, page \<open>B\<close>, damping factor 0.85.\<close>

theorem transition_model_dangling_uniform_witness:
  "is_corpus [(''A'', [''B'']), (''B'', [])] \<and>
   (''B'', []) \<in> set [(''A'', [''B'']), (''B'', [])] \<and>
   transition_model [(''A'', [''B'']), (''B'', [])] ''B'' (85 / 100) =
     Inr [(''A'', 1 / 2), (''B'', 1 / 2)]"
proof -
  have c: "is_corpus [(''A'', [''B'']), (''B'', [])]"
    by (simp add: is_corpus_def dict_keys_def)
  have m: "(''B'', []) \<in> set [(''A'', [''B'']), (''B'', [])]" by simp
  from transition_model_dangling_uniform[OF c m, of "85 / 100"] c m show ?thesis
    by (simp add: dict_keys_def)
qed

text \<open>
  C2 as stated fails on a non-empty corpus whose page links to a target that is no key:
  at \<open>{A: {B}}\<close>, page \<open>A\<close>, line 77 reads \<^verbatim>\<open>output["B"]\<close> and raises KeyError.
\<close>

theorem transition_model_linked_unknown_target:
  "transition_model [(''A'', [''B''])] ''A'' (85 / 100) = Inl KeyError"
  by (simp add: transition_model_def getitem_def setitem_def dict_keys_def)

text \<open>
  C2, amended. For a page that is a key of the corpus with at least one link, all of whose
  links are keys of the corpus, \<^const>\<open>transition_model\<close> returns a distribution with
  exactly the corpus's pages as keys, in which a page linked from \<open>page\<close> has the baseline
  \<open>(1 - d) / N\<close> plus \<open>d / k\<close>, \<open>k\<close> the number of links of \<open>page\<close>, and every other page
  has the baseline alone.
\<close>

theorem transition_model_linked_values:
  assumes "is_corpus corpus" and "(page, links) \<in> set corpus" and "links \<noteq> []"
    and "set links \<subseteq> set (dict_keys corpus)"
  shows "\<exists>out. transition_model corpus page damping_factor = Inr out \<and>
           dict_keys out = dict_keys corpus \<and> 
           (\<forall>p \<in> set (dict_keys corpus). map_of out p =
              Some ((1 - damping_factor) / of_nat (length corpus) +
                    (if p \<in> set links then damping_factor / of_nat (length links) else 0)))"
  using transition_model_linked_aux[OF assms, of damping_factor] by blast

text \<open>C2 at the corpus \<open>{A: {B, C}, B: {}, C: {A}}\<close>, page \<open>A\<close>, damping factor 0.85.\<close>

theorem transition_model_linked_values_witness:
  "is_corpus [(''A'', [''B'', ''C'']), (''B'', []), (''C'', [''A''])] \<and>
   (''A'', [''B'', ''C'']) \<in> set [(''A'', [''B'', ''C'']), (''B'', []), (''C'', [''A''])] \<and>
   [''B'', ''C''] \<noteq> [] \<and>
   set [''B'', ''C''] \<subseteq> set (dict_keys [(''A'', [''B'', ''C'']), (''B'', []), (''C'', [''A''])]) \<and>
   (\<exists>out. transition_model [(''A'', [''B'', ''C'']), (''B'', []), (''C'', [''A''])] ''A'' (85 / 100) = Inr out \<and>
      dict_keys out = [''A'', ''B'', ''C''] \<and>
      map_of out ''A'' = Some (1 / 20) \<and> map_of out ''B'' = Some (19 / 40) \<and>
      map_of out ''C'' = Some (19 / 40))"
proof -
  let ?c = "[(''A'', [''B'', ''C'']), (''B'', []), (''C'', [''A''])]"
  have c: "is_corpus ?c" by (simp add: is_corpus_def dict_keys_def)
  have m: "(''A'', [''B'', ''C'']) \<in> set ?c" by simp
  have n: "[''B'', ''C''] \<noteq> ([] :: page list)" by simp
  have s: "set [''B'', ''C''] \<subseteq> set (dict_keys ?c)" by (simp add: dict_keys_def)
  from transition_model_linked_values[OF c m n s, of "85 / 100"] obtain out where
    "transition_model ?c ''A'' (85 / 100) = Inr out" "dict_keys out = dict_keys ?c"
    "\<forall>p \<in> set (dict_keys ?c). map_of out p =
              Some ((1 - 85 / 100) / of_nat (length ?c) +
                    (if p \<in> set [''B'', ''C''] then (85 / 100) / of_nat (length [''B'', ''C'']) else 0))"
    by blast
  then have "transition_model ?c ''A'' (85 / 100) = Inr out \<and>
      dict_keys out = [''A'', ''B'', ''C''] \<and>
      map_of out ''A'' = Some (1 / 20) \<and> map_of out ''B'' = Some (19 / 40) \<and>
      map_of out ''C'' = Some (19 / 40)"
    by (simp add: dict_keys_def)
  with c m n s show ?thesis by blast
qed




section \<open>Claims about sample_pagerank\<close>






end
